theory Spec2Isabelle
  imports Main
begin

section \<open>JavaScript values\<close>

text \<open>
  The cache stores keys and values of the TypeScript type
  \<^verbatim>\<open>string | number | object\<close>; the validation in \<^verbatim>\<open>add\<close> also tests for
  \<^verbatim>\<open>undefined\<close> and \<^verbatim>\<open>null\<close>, so both are values of the model. Numbers are
  modelled by their integer values (the only falsy one is \<open>0\<close>). An object is a
  reference into a heap: two object values are equal exactly when they are the same
  reference, which is how a JavaScript \<^verbatim>\<open>Map\<close> compares its keys.
\<close>

type_synonym ref = nat

datatype jsval = Undefined | Null | Str string | Num int | Obj ref

text \<open>
  The code observes an object in four ways only: through its \<^verbatim>\<open>toString()\<close>,
  through its conversion in a template literal, through \<^verbatim>\<open>JSON.stringify\<close>, and
  through \<^verbatim>\<open>cloneDeep\<close>. A heap object records the outcome of each of the first
  three; two heap objects with the same record are structurally equal. Each outcome is
  the object's own: \<^verbatim>\<open>Object.create(null)\<close> has no \<^verbatim>\<open>toString\<close> to call and cannot
  be converted in a template, an object with a \<^verbatim>\<open>valueOf\<close> or a
  \<^verbatim>\<open>Symbol.toPrimitive\<close> of its own is converted in a template otherwise than by
  \<^verbatim>\<open>toString()\<close>, and \<^verbatim>\<open>JSON.stringify\<close> throws on a cyclic object and returns
  \<^verbatim>\<open>undefined\<close> when a \<^verbatim>\<open>toJSON\<close> says so.
\<close>

datatype json_outcome = Json_throws | Json_undefined | Json_text string

record jsobject =
  obj_toString :: "string option"
  obj_template :: "string option"
  obj_json :: json_outcome

type_synonym heap = "jsobject list"

definition plain_object :: jsobject where
  "plain_object =
     \<lparr>obj_toString = Some ''[object Object]'', obj_template = Some ''[object Object]'',
      obj_json = Json_text ''{}''\<rparr>"

text \<open>A reference that the heap does not hold is read as an empty plain object.\<close>

definition deref :: "heap \<Rightarrow> ref \<Rightarrow> jsobject" where
  "deref h r = (if r < length h then h ! r else plain_object)"

datatype error =
    EmptyKey | EmptyValue | AddFailed | GetFailed | PopError
  | TypeError | NotAFunction | MissingArguments | Unsettled

text \<open>
  A promise that has settled: \<open>Inl e\<close> is a rejection, \<open>Inr x\<close> a fulfilment.
  \<open>Inl Unsettled\<close> stands for a promise that is never settled.
\<close>

type_synonym 'a promise = "error + 'a"

text \<open>
  Inside a promise executor the first call of \<^verbatim>\<open>resolve\<close> or \<^verbatim>\<open>reject\<close>
  decides the promise; a later call, and an exception thrown later, change nothing.
\<close>

fun settle :: "'a promise option \<Rightarrow> 'a promise \<Rightarrow> 'a promise" where
  "settle None r = r"
| "settle (Some r0) r = r0"

fun truthy :: "jsval \<Rightarrow> bool" where
  "truthy Undefined = False"
| "truthy Null = False"
| "truthy (Str s) = (s \<noteq> [])"
| "truthy (Num n) = (n \<noteq> 0)"
| "truthy (Obj r) = True"

fun typeof :: "jsval \<Rightarrow> string" where
  "typeof Undefined = ''undefined''"
| "typeof Null = ''object''"
| "typeof (Str s) = ''string''"
| "typeof (Num n) = ''number''"
| "typeof (Obj r) = ''object''"

subsection \<open>Number and string conversions\<close>

fun show_nat :: "nat \<Rightarrow> string" where
  "show_nat n =
     (if n < 10 then [''0123456789'' ! n]
      else show_nat (n div 10) @ [''0123456789'' ! (n mod 10)])"

declare show_nat.simps [simp del]

definition show_int :: "int \<Rightarrow> string" where
  "show_int n = (if n < 0 then CHR ''-'' # show_nat (nat (- n)) else show_nat (nat n))"

text \<open>
  \<^verbatim>\<open>x.toString()\<close>: a \<^verbatim>\<open>TypeError\<close> on \<^verbatim>\<open>undefined\<close> and \<^verbatim>\<open>null\<close> and on an
  object with no \<^verbatim>\<open>toString\<close> to call; otherwise the string itself, the decimal
  numeral, or what the object's own method returns.
\<close>

fun toString :: "heap \<Rightarrow> jsval \<Rightarrow> error + string" where
  "toString h Undefined = Inl TypeError"
| "toString h Null = Inl TypeError"
| "toString h (Str s) = Inr s"
| "toString h (Num n) = Inr (show_int n)"
| "toString h (Obj r) =
     (case obj_toString (deref h r) of None \<Rightarrow> Inl TypeError | Some s \<Rightarrow> Inr s)"

text \<open>
  The conversion of \<^verbatim>\<open>x\<close> inside a template literal \<^verbatim>\<open>`...${x}`\<close>: \<^verbatim>\<open>undefined\<close>
  and \<^verbatim>\<open>null\<close> have names, a string is itself, a number is its numeral, and an
  object is converted as the object has it, or the conversion throws.
\<close>

fun template_string :: "heap \<Rightarrow> jsval \<Rightarrow> error + string" where
  "template_string h Undefined = Inr ''undefined''"
| "template_string h Null = Inr ''null''"
| "template_string h (Str s) = Inr s"
| "template_string h (Num n) = Inr (show_int n)"
| "template_string h (Obj r) =
     (case obj_template (deref h r) of None \<Rightarrow> Inl TypeError | Some s \<Rightarrow> Inr s)"

definition hex_digit :: "nat \<Rightarrow> char" where
  "hex_digit n = ''0123456789abcdef'' ! n"

text \<open>JSON's escaping of one code unit of a string.\<close>

definition json_escape :: "char \<Rightarrow> string" where
  "json_escape c =
     (if c = CHR 0x22 then [CHR 0x5C, CHR 0x22]
      else if c = CHR 0x5C then [CHR 0x5C, CHR 0x5C]
      else if c = CHR 0x08 then [CHR 0x5C, CHR ''b'']
      else if c = CHR 0x09 then [CHR 0x5C, CHR ''t'']
      else if c = CHR 0x0A then [CHR 0x5C, CHR ''n'']
      else if c = CHR 0x0C then [CHR 0x5C, CHR ''f'']
      else if c = CHR 0x0D then [CHR 0x5C, CHR ''r'']
      else if (of_char c :: nat) < 32
        then [CHR 0x5C, CHR ''u'', CHR ''0'', CHR ''0'',
              hex_digit (of_char c div 16), hex_digit (of_char c mod 16)]
      else [c])"

definition json_quote :: "string \<Rightarrow> string" where
  "json_quote s = CHR 0x22 # concat (map json_escape s) @ [CHR 0x22]"

text \<open>
  \<^verbatim>\<open>JSON.stringify(x)\<close>: \<^verbatim>\<open>undefined\<close> for \<^verbatim>\<open>undefined\<close>, a string for
  \<^verbatim>\<open>null\<close>, a string or a number, and for an object what the object has.
\<close>

fun JSON_stringify :: "heap \<Rightarrow> jsval \<Rightarrow> error + jsval" where
  "JSON_stringify h Undefined = Inr Undefined"
| "JSON_stringify h Null = Inr (Str ''null'')"
| "JSON_stringify h (Str s) = Inr (Str (json_quote s))"
| "JSON_stringify h (Num n) = Inr (Str (show_int n))"
| "JSON_stringify h (Obj r) =
     (case obj_json (deref h r) of
        Json_throws \<Rightarrow> Inl TypeError
      | Json_undefined \<Rightarrow> Inr Undefined
      | Json_text s \<Rightarrow> Inr (Str s))"

text \<open>
  lodash's \<^verbatim>\<open>cloneDeep\<close>: a primitive is returned as it is; an object is copied
  into a new heap cell, so the copy has the same structure under a new reference.
\<close>

fun cloneDeep :: "heap \<Rightarrow> jsval \<Rightarrow> jsval \<times> heap" where
  "cloneDeep h (Obj r) = (Obj (length h), h @ [deref h r])"
| "cloneDeep h x = (x, h)"

section \<open>The insertion-ordered Map\<close>

text \<open>
  A JavaScript \<^verbatim>\<open>Map\<close> iterates in insertion order: \<^verbatim>\<open>set\<close> on a key it holds
  replaces the value in place, \<^verbatim>\<open>set\<close> on a new key appends, \<^verbatim>\<open>delete\<close>
  removes the key's entry. It is modelled as an association list in that order.
\<close>

type_synonym 'v jsmap = "(jsval \<times> 'v) list"

definition map_has :: "'v jsmap \<Rightarrow> jsval \<Rightarrow> bool" where
  "map_has m k = (map_of m k \<noteq> None)"

definition map_get :: "'v jsmap \<Rightarrow> jsval \<Rightarrow> 'v option" where
  "map_get m k = map_of m k"

fun map_set :: "'v jsmap \<Rightarrow> jsval \<Rightarrow> 'v \<Rightarrow> 'v jsmap" where
  "map_set [] k v = [(k, v)]"
| "map_set ((k', v') # m) k v = (if k' = k then (k, v) # m else (k', v') # map_set m k v)"

fun map_delete :: "'v jsmap \<Rightarrow> jsval \<Rightarrow> 'v jsmap" where
  "map_delete [] k = []"
| "map_delete ((k', v') # m) k = (if k' = k then map_delete m k else (k', v') # map_delete m k)"

definition map_size :: "'v jsmap \<Rightarrow> int" where
  "map_size m = int (length m)"

section \<open>The cache\<close>

text \<open>
  The class \<^verbatim>\<open>Cache\<close> in its documented definition: the one whose storage modes
  are \<^verbatim>\<open>clone\<close>, \<^verbatim>\<open>stringify\<close> and \<^verbatim>\<open>byReference\<close> and whose \<^verbatim>\<open>add\<close> takes
  \<^verbatim>\<open>{ addObjectAs, throwOnExist }\<close>. Every method runs its whole body inside the
  executor of the promise it returns, so a call is one step on the cache; an
  exception thrown in the executor rejects the promise.
\<close>

datatype AddObjectAs = Clone | Stringify | ByReference

record lifetime_options =
  duration :: "int option"
  frequency :: "int option"

record CacheOptions =
  limit :: "int option"
  duplicateAddThrows :: "bool option"
  throwOnEmpty :: "bool option"
  addObjectsAs :: "AddObjectAs option"
  lifetime :: "lifetime_options option"

record CacheObject =
  key :: jsval
  value' :: jsval
  timestamp :: int

record Cache =
  options :: CacheOptions
  cache_map :: "CacheObject jsmap"

text \<open>The options object \<^verbatim>\<open>{}\<close>: every field \<^verbatim>\<open>undefined\<close>.\<close>

definition no_options :: CacheOptions where
  "no_options = \<lparr>limit = None, duplicateAddThrows = None, throwOnEmpty = None,
     addObjectsAs = None, lifetime = None\<rparr>"

text \<open>
  The constructor: \<^verbatim>\<open>this.options = options || {}\<close> and an empty map. When
  \<^verbatim>\<open>lifetime.duration\<close> is truthy it also starts an interval timer that calls
  \<^verbatim>\<open>prune\<close>; \<open>prune_interval\<close> is the timer's period, \<open>None\<close> when no timer runs.
\<close>

definition new_Cache :: "CacheOptions option \<Rightarrow> Cache" where
  "new_Cache opts =
     \<lparr>options = (case opts of None \<Rightarrow> no_options | Some x \<Rightarrow> x), cache_map = []\<rparr>"

definition prune_interval :: "Cache \<Rightarrow> int option" where
  "prune_interval c =
     (case lifetime (options c) of
        None \<Rightarrow> None
      | Some l \<Rightarrow>
          (case duration l of
             None \<Rightarrow> None
           | Some d \<Rightarrow>
               if d = 0 then None
               else Some (case frequency l of
                            None \<Rightarrow> 500
                          | Some f \<Rightarrow> if f = 0 then 500 else f)))"

subsection \<open>Pruning\<close>

text \<open>
  The loop of \<^verbatim>\<open>prune\<close>:
  \<^verbatim>\<open>for (let i = 0; i < this.map.size; i++) { const [key, obj] = entries[i]; ... }\<close>.
  \<open>entries\<close> is the array taken from the map before the loop, \<open>m\<close> is the map as the
  loop has changed it, and the bound is the size of \<open>m\<close>, read again at every
  round. Destructuring \<^verbatim>\<open>entries[i]\<close> past the end of the array throws; the first
  component of the result is what was thrown, if anything.
\<close>

function prune_loop ::
  "(jsval \<times> CacheObject) list \<Rightarrow> int \<Rightarrow> nat \<Rightarrow> CacheObject jsmap
     \<Rightarrow> error option \<times> CacheObject jsmap" where
  "prune_loop entries expired i m =
     (if i < length m then
        (if i < length entries then
           (case entries ! i of
              (k, obj) \<Rightarrow>
                prune_loop entries expired (Suc i)
                  (if timestamp obj < expired then map_delete m k else m))
         else (Some TypeError, m))
      else (None, m))"
  by pat_completeness auto
termination
proof (relation "measure (\<lambda>(entries, expired, i, m). length m - i)")
  show "wf (measure (\<lambda>(entries, expired, i, m). length m - i))"
    by simp
next
  fix entries :: "(jsval \<times> CacheObject) list" and expired :: int and i :: nat
    and m :: "CacheObject jsmap" and k :: jsval and obj :: CacheObject
  assume "i < length m"
  moreover have "length (map_delete m k) \<le> length m"
    by (induction m) (auto simp: le_SucI)
  then have "length (if timestamp obj < expired then map_delete m k else m) \<le> length m"
    by simp
  ultimately show
    "((entries, expired, Suc i, if timestamp obj < expired then map_delete m k else m),
      (entries, expired, i, m)) \<in> measure (\<lambda>(entries, expired, i, m). length m - i)"
    by simp
qed

declare prune_loop.simps [simp del]

definition prune :: "int \<Rightarrow> Cache \<Rightarrow> unit promise \<times> Cache" where
  "prune now c =
     (case lifetime (options c) of
        None \<Rightarrow> (Inr (), c)
      | Some l \<Rightarrow>
          (case duration l of
             None \<Rightarrow> (Inr (), c)
           | Some d \<Rightarrow>
               if d = 0 then (Inr (), c)
               else
                 let entries = cache_map c;
                     expired = now - (if d = 0 then 1000 else d)
                 in (case prune_loop entries expired 0 (cache_map c) of
                       (None, m) \<Rightarrow> (Inr (), c\<lparr>cache_map := m\<rparr>)
                     | (Some e, m) \<Rightarrow> (Inl e, c\<lparr>cache_map := m\<rparr>))))"

subsection \<open>get, has, clear\<close>

text \<open>
  \<^verbatim>\<open>this.options.throwOnEmpty || throwOnEmpty\<close> is truthy when either operand is
  \<^verbatim>\<open>true\<close>. With that and no entry the promise is rejected; the message is built
  with \<^verbatim>\<open>key.toString()\<close>, which throws on \<^verbatim>\<open>undefined\<close> and \<^verbatim>\<open>null\<close>.
  Otherwise the promise is fulfilled with \<^verbatim>\<open>entry?.value || undefined\<close>.
\<close>

definition cache_get :: "Cache \<Rightarrow> heap \<Rightarrow> jsval \<Rightarrow> bool option \<Rightarrow> jsval promise" where
  "cache_get c h k throwOnEmpty_arg =
     (let throwOnEmpty_eff =
            (throwOnEmpty (options c) = Some True \<or> throwOnEmpty_arg = Some True)
      in if throwOnEmpty_eff \<and> \<not> map_has (cache_map c) k then
           (case toString h k of Inl e \<Rightarrow> Inl e | Inr s \<Rightarrow> Inl GetFailed)
         else
           (case map_get (cache_map c) k of
              None \<Rightarrow> Inr Undefined
            | Some entry \<Rightarrow>
                Inr (if truthy (value' entry) then value' entry else Undefined)))"

definition cache_has :: "Cache \<Rightarrow> jsval \<Rightarrow> bool promise" where
  "cache_has c k = Inr (map_has (cache_map c) k)"

definition cache_clear :: "Cache \<Rightarrow> unit promise \<times> Cache" where
  "cache_clear c = (Inr (), c\<lparr>cache_map := []\<rparr>)"

subsection \<open>add\<close>

record AddOptions =
  addObjectAs :: "AddObjectAs option"
  throwOnExist :: "bool option"

text \<open>The default of the parameter: both fields \<^verbatim>\<open>undefined\<close>.\<close>

definition no_add_options :: AddOptions where
  "no_add_options = \<lparr>addObjectAs = None, throwOnExist = None\<rparr>"

text \<open>
  \<^verbatim>\<open>if (this.options.limit === this.map.size) { const [key] = Array.from(this.map)[0];
  this.map.delete(key); }\<close>: on an empty map the array has no element \<open>0\<close> and
  the destructuring throws.
\<close>

definition evict :: "Cache \<Rightarrow> error + CacheObject jsmap" where
  "evict c =
     (if limit (options c) = Some (map_size (cache_map c)) then
        (case cache_map c of
           [] \<Rightarrow> Inl TypeError
         | (k0, obj0) # rest \<Rightarrow> Inr (map_delete (cache_map c) k0))
      else Inr (cache_map c))"

text \<open>
  How the value is stored: only an object is cloned or stringified, and
  \<^verbatim>\<open>JSON.stringify\<close> may throw.
\<close>

definition stored_value :: "heap \<Rightarrow> AddObjectAs \<Rightarrow> jsval \<Rightarrow> error + jsval \<times> heap" where
  "stored_value h addAs v =
     (if typeof v = ''object'' then
        (if addAs = Clone then Inr (cloneDeep h v)
         else if addAs = Stringify then
           (case JSON_stringify h v of Inl thrown \<Rightarrow> Inl thrown | Inr s \<Rightarrow> Inr (s, h))
         else Inr (v, h))
      else Inr (v, h))"

text \<open>
  The duplicate branch builds its message with \<^verbatim>\<open>${key}\<close> and then rejects. When
  the conversion of the key throws, the executor throws before it has rejected
  (\<open>Inl\<close>); otherwise the branch leaves the promise rejected, or not, and the executor
  runs on (\<open>Inr\<close>).
\<close>

definition duplicate_check ::
  "Cache \<Rightarrow> heap \<Rightarrow> jsval \<Rightarrow> bool \<Rightarrow> error + unit promise option" where
  "duplicate_check c h k throwIfKeyExists =
     (if throwIfKeyExists \<and> map_has (cache_map c) k then
        (case template_string h k of
           Inl thrown \<Rightarrow> Inl thrown
         | Inr s \<Rightarrow> Inr (Some (Inl AddFailed)))
      else Inr None)"

text \<open>
  \<^verbatim>\<open>add\<close>. The key test is
  \<^verbatim>\<open>key === undefined || key === null || key.toString().length === 0\<close>: for a key
  that is neither \<^verbatim>\<open>undefined\<close> nor \<^verbatim>\<open>null\<close> it calls \<^verbatim>\<open>key.toString()\<close>, and
  when that call throws, the executor throws and the promise is rejected with what
  was thrown. The two validation branches reject and return. The duplicate branch
  rejects and does not return: the executor runs on, so the promise is already
  rejected (\<open>rejected\<close>) while the eviction and the insertion still happen. An
  exception thrown after the eviction leaves the map as the eviction made it.
\<close>

definition cache_add ::
  "Cache \<Rightarrow> heap \<Rightarrow> jsval \<Rightarrow> jsval \<Rightarrow> AddOptions \<Rightarrow> int \<Rightarrow> unit promise \<times> Cache \<times> heap" where
  "cache_add c h k v addOptions now =
     (let addAs =
            (case addObjectAs addOptions of
               Some a \<Rightarrow> a
             | None \<Rightarrow> (case addObjectsAs (options c) of Some a \<Rightarrow> a | None \<Rightarrow> ByReference));
          throwIfKeyExists =
            (throwOnExist addOptions = Some True \<or> duplicateAddThrows (options c) = Some True)
      in if k = Undefined \<or> k = Null then (Inl EmptyKey, c, h)
         else
           (case toString h k of
              Inl thrown \<Rightarrow> (Inl thrown, c, h)
            | Inr s \<Rightarrow>
                if length s = 0 then (Inl EmptyKey, c, h)
                else if v = Undefined \<or> v = Null \<or> length s = 0 then (Inl EmptyValue, c, h)
                else
                  (case duplicate_check c h k throwIfKeyExists of
                     Inl thrown \<Rightarrow> (Inl thrown, c, h)
                   | Inr rejected \<Rightarrow>
                       (case evict c of
                          Inl e \<Rightarrow> (settle rejected (Inl e), c, h)
                        | Inr m \<Rightarrow>
                            (case stored_value h addAs v of
                               Inl thrown \<Rightarrow>
                                 (settle rejected (Inl thrown), c\<lparr>cache_map := m\<rparr>, h)
                             | Inr (stored, h') \<Rightarrow>
                                 (settle rejected (Inr ()),
                                  c\<lparr>cache_map :=
                                      map_set m k
                                        \<lparr>key = k, value' = stored, timestamp = now\<rparr>\<rparr>,
                                  h'))))))"

subsection \<open>pop\<close>

text \<open>
  \<^verbatim>\<open>pop\<close> runs in two steps. The call itself tests \<^verbatim>\<open>this.map.has(key)\<close>. With no
  entry it settles at once: it rejects with a string built from \<^verbatim>\<open>${key}\<close>, or
  resolves with \<^verbatim>\<open>undefined\<close>. With an entry it calls \<^verbatim>\<open>this.get\<close>, whose executor
  reads the value at once, and leaves the rest to the continuation given to
  \<^verbatim>\<open>then\<close>. The call does not change the map.
\<close>

datatype pop_call = Settled "jsval promise" | Continues jsval "jsval promise"

definition cache_pop_call :: "Cache \<Rightarrow> heap \<Rightarrow> jsval \<Rightarrow> bool option \<Rightarrow> pop_call" where
  "cache_pop_call c h k throwOnEmpty_arg =
     (if \<not> map_has (cache_map c) k then
        (if throwOnEmpty_arg = Some True \<or> throwOnEmpty (options c) = Some True
         then Settled (case template_string h k of
                         Inl thrown \<Rightarrow> Inl thrown
                       | Inr s \<Rightarrow> Inl PopError)
         else Settled (Inr Undefined))
      else Continues k (cache_get c h k throwOnEmpty_arg))"

text \<open>
  The continuation \<^verbatim>\<open>(value) => { this.map.delete(key); resolve(value); }\<close> runs in
  a later microtask, on the cache as it is by then: whatever the program called after
  \<^verbatim>\<open>pop\<close> and before giving up control has already run. A rejection of the \<^verbatim>\<open>get\<close>
  has no handler, so \<^verbatim>\<open>pop\<close>'s own promise would stay unsettled.
\<close>

definition cache_pop_then :: "Cache \<Rightarrow> jsval \<Rightarrow> jsval promise \<Rightarrow> jsval promise \<times> Cache" where
  "cache_pop_then c k got =
     (case got of
        Inl e \<Rightarrow> (Inl Unsettled, c)
      | Inr v \<Rightarrow> (Inr v, c\<lparr>cache_map := map_delete (cache_map c) k\<rparr>))"

text \<open>
  A \<^verbatim>\<open>pop\<close> that is awaited before anything else is called on the cache: the
  continuation runs on the cache of the call.
\<close>

definition cache_pop ::
  "Cache \<Rightarrow> heap \<Rightarrow> jsval \<Rightarrow> bool option \<Rightarrow> jsval promise \<times> Cache" where
  "cache_pop c h k throwOnEmpty_arg =
     (case cache_pop_call c h k throwOnEmpty_arg of
        Settled r \<Rightarrow> (r, c)
      | Continues k' got \<Rightarrow> cache_pop_then c k' got)"

section \<open>The memoizer\<close>

text \<open>
  A memoized function is the closure of \<^verbatim>\<open>fn\<close> and its private cache. \<^verbatim>\<open>fn\<close>
  may read the clock: it is given the time of the call.
\<close>

type_synonym js_function = "int \<Rightarrow> jsval \<Rightarrow> jsval"

datatype memoized = Memoized js_function Cache

definition memoizer :: "jsval + js_function \<Rightarrow> error + memoized" where
  "memoizer fn =
     (let cache = new_Cache None
      in case fn of
           Inl x \<Rightarrow> Inl NotAFunction
         | Inr f \<Rightarrow> Inr (Memoized f cache))"

fun memoized_call ::
  "memoized \<Rightarrow> heap \<Rightarrow> int \<Rightarrow> jsval \<Rightarrow> jsval promise \<times> memoized \<times> heap" where
  "memoized_call (Memoized fn cache) h now args =
     (if \<not> truthy args then (Inl MissingArguments, Memoized fn cache, h)
      else
        (case JSON_stringify h args of
           Inl thrown \<Rightarrow> (Inl thrown, Memoized fn cache, h)
         | Inr k \<Rightarrow>
             (case cache_has cache k of
                Inl e \<Rightarrow> (Inl e, Memoized fn cache, h)
              | Inr found \<Rightarrow>
                  if found then (cache_get cache h k None, Memoized fn cache, h)
                  else
                    let result = fn now args
                    in (case cache_add cache h k result no_add_options now of
                          (Inl e, cache', h') \<Rightarrow> (Inl e, Memoized fn cache', h')
                        | (Inr u, cache', h') \<Rightarrow> (Inr result, Memoized fn cache', h')))))"

section \<open>Histories of calls\<close>

text \<open>
  What a program does with one cache over time: a sequence of calls of the public
  methods, with ticks of the pruning timer in between. Every method but \<^verbatim>\<open>pop\<close>
  does all its work in the call. \<open>Pop\<close> is the call of \<^verbatim>\<open>pop\<close>, which changes
  nothing, and \<open>PopThen k v\<close> is the continuation of a \<^verbatim>\<open>pop\<close> of \<open>k\<close> that read the
  value \<open>v\<close>; it may come any number of steps after its call. \<open>call_effect\<close> is the
  cache and the heap after one step. What is proved of histories is proved of every
  list of steps, also of one in which a continuation has no call before it.
\<close>

datatype cache_call =
    Add jsval jsval AddOptions int
  | Get jsval "bool option"
  | Pop jsval "bool option"
  | PopThen jsval jsval
  | Has jsval
  | Clear
  | Prune int

fun call_effect :: "Cache \<times> heap \<Rightarrow> cache_call \<Rightarrow> Cache \<times> heap" where
  "call_effect (c, h) (Add k v addOptions now) = snd (cache_add c h k v addOptions now)"
| "call_effect (c, h) (Get k t) = (c, h)"
| "call_effect (c, h) (Pop k t) = (c, h)"
| "call_effect (c, h) (PopThen k v) = (snd (cache_pop_then c k (Inr v)), h)"
| "call_effect (c, h) (Has k) = (c, h)"
| "call_effect (c, h) Clear = (snd (cache_clear c), h)"
| "call_effect (c, h) (Prune now) = (snd (prune now c), h)"

text \<open>
  What every store built by the methods satisfies: the keys are distinct, and none is
  \<^verbatim>\<open>undefined\<close> or \<^verbatim>\<open>null\<close>.
\<close>

definition store_ok :: "CacheObject jsmap \<Rightarrow> bool" where
  "store_ok m = (distinct (map fst m) \<and> Undefined \<notin> fst ` set m \<and> Null \<notin> fst ` set m)"

section \<open>Properties of the conversions\<close>

lemma show_nat_nonempty: "show_nat n \<noteq> []"
  by (subst show_nat.simps) simp

lemma show_int_nonempty: "show_int n \<noteq> []"
  by (simp add: show_int_def show_nat_nonempty)

text \<open>A number always has a string that is not empty.\<close>

lemma toString_Num: "\<exists>s. toString h (Num n) = Inr s \<and> s \<noteq> []"
  by (simp add: show_int_nonempty)

lemma toString_Inl: "toString h k = Inl e \<Longrightarrow> e = TypeError"
  by (cases k) (auto split: option.splits)

lemma template_string_Inl: "template_string h k = Inl e \<Longrightarrow> e = TypeError"
  by (cases k) (auto split: option.splits)

lemma JSON_stringify_Inl: "JSON_stringify h x = Inl e \<Longrightarrow> e = TypeError"
  by (cases x) (auto split: json_outcome.splits)

text \<open>The JSON text of a string or of a number is a non-empty string.\<close>

lemma JSON_stringify_primitive:
  "\<exists>s. JSON_stringify h (Num n) = Inr (Str s) \<and> s \<noteq> []"
  "\<exists>s. JSON_stringify h (Str x) = Inr (Str s) \<and> s \<noteq> []"
  by (simp_all add: show_int_nonempty json_quote_def)

section \<open>Properties of the Map model and of the pruning loop\<close>

lemma map_of_map_delete:
  "map_of (map_delete m k) k' = (if k' = k then None else map_of m k')"
  by (induction m) auto

lemma map_of_map_set:
  "map_of (map_set m k v) k' = (if k' = k then Some v else map_of m k')"
  by (induction m) auto

lemma map_delete_absent: "k \<notin> fst ` set m \<Longrightarrow> map_delete m k = m"
  by (induction m) auto

lemma map_set_absent: "k \<notin> fst ` set m \<Longrightarrow> map_set m k v = m @ [(k, v)]"
  by (induction m) auto

lemma length_map_set_le: "length (map_set m k v) \<le> Suc (length m)"
  by (induction m) auto

lemma length_map_delete_le: "length (map_delete m k) \<le> length m"
  by (induction m) (auto simp: le_SucI)

lemma evict_Inl: "evict c = Inl e \<Longrightarrow> e = TypeError"
  by (auto simp: evict_def split: if_splits list.splits)

lemma prune_loop_Nil: "prune_loop entries expired i [] = (None, [])"
  by (simp add: prune_loop.simps)

text \<open>
  The loop only deletes, and only keys that the array holds with an entry older than
  \<open>expired\<close>: its result is the map with some list of such keys deleted.
\<close>

lemma map_of_deletes:
  "map_of (foldl map_delete m ks) k = (if k \<in> set ks then None else map_of m k)"
  by (induction ks arbitrary: m) (auto simp: map_of_map_delete)

lemma length_deletes: "length (foldl map_delete m ks) \<le> length m"
proof (induction ks arbitrary: m)
  case Nil
  then show ?case by simp
next
  case (Cons k ks)
  have "length (foldl map_delete (map_delete m k) ks) \<le> length (map_delete m k)"
    by (rule Cons.IH)
  also have "\<dots> \<le> length m"
    by (rule length_map_delete_le)
  finally show ?case by simp
qed

lemma prune_loop_deletes:
  "\<exists>ks. snd (prune_loop entries expired i m) = foldl map_delete m ks
     \<and> (\<forall>k \<in> set ks. \<exists>obj. (k, obj) \<in> set entries \<and> timestamp obj < expired)"
proof (induction entries expired i m rule: prune_loop.induct)
  case (1 entries expired i m)
  show ?case
  proof (cases "i < length m \<and> i < length entries")
    case False
    then have "snd (prune_loop entries expired i m) = foldl map_delete m []"
      by (subst prune_loop.simps) auto
    then show ?thesis
      by (intro exI [of _ "[]"]) simp
  next
    case True
    obtain k' obj where ent: "entries ! i = (k', obj)"
      by (cases "entries ! i")
    then have mem: "(k', obj) \<in> set entries"
      using True by (metis nth_mem)
    let ?m' = "if timestamp obj < expired then map_delete m k' else m"
    have step: "prune_loop entries expired i m = prune_loop entries expired (Suc i) ?m'"
      using True ent by (subst prune_loop.simps) simp
    obtain ks where ks: "snd (prune_loop entries expired (Suc i) ?m') = foldl map_delete ?m' ks"
      "\<forall>k \<in> set ks. \<exists>obj. (k, obj) \<in> set entries \<and> timestamp obj < expired"
      using "1.IH" [of k' obj] True ent by auto
    show ?thesis
    proof (cases "timestamp obj < expired")
      case True
      then have "snd (prune_loop entries expired i m) = foldl map_delete m (k' # ks)"
        using step ks(1) by simp
      moreover have "\<forall>k \<in> set (k' # ks). \<exists>obj. (k, obj) \<in> set entries \<and> timestamp obj < expired"
        using ks(2) mem True by auto
      ultimately show ?thesis
        by blast
    next
      case False
      then have "snd (prune_loop entries expired i m) = foldl map_delete m ks"
        using step ks(1) by simp
      then show ?thesis
        using ks(2) by blast
    qed
  qed
qed

text \<open>A key that is not in the map is not in the result.\<close>

lemma prune_loop_absent:
  "map_of m k = None \<Longrightarrow> map_of (snd (prune_loop entries expired i m)) k = None"
  using prune_loop_deletes [of entries expired i m] by (auto simp: map_of_deletes)

text \<open>The loop never deletes a key whose entries in the array are all young enough.\<close>

lemma prune_loop_keeps:
  assumes "\<And>obj. (k, obj) \<in> set entries \<Longrightarrow> \<not> timestamp obj < expired"
  shows "map_of (snd (prune_loop entries expired i m)) k = map_of m k"
proof -
  obtain ks where ks: "snd (prune_loop entries expired i m) = foldl map_delete m ks"
    "\<forall>k \<in> set ks. \<exists>obj. (k, obj) \<in> set entries \<and> timestamp obj < expired"
    using prune_loop_deletes [of entries expired i m] by auto
  have "k \<notin> set ks"
    using ks(2) assms by blast
  then show ?thesis
    by (simp add: ks(1) map_of_deletes)
qed

lemma length_prune_loop: "length (snd (prune_loop entries expired i m)) \<le> length m"
  using prune_loop_deletes [of entries expired i m] by (auto simp: length_deletes)

lemma length_prune: "length (cache_map (snd (prune now c))) \<le> length (cache_map c)"
  using length_prune_loop [of "cache_map c" _ 0 "cache_map c"]
  by (auto simp: prune_def Let_def split: option.splits prod.splits)
    (metis snd_conv)+

text \<open>Round \<open>0\<close> of the loop always runs on a map that is not empty.\<close>

lemma prune_loop_oldest:
  assumes "timestamp e < expired"
  shows "map_of (snd (prune_loop ((k, e) # rest) expired 0 ((k, e) # rest))) k = None"
proof -
  have "prune_loop ((k, e) # rest) expired 0 ((k, e) # rest)
      = prune_loop ((k, e) # rest) expired (Suc 0) (map_delete rest k)"
    using assms by (subst prune_loop.simps) simp
  moreover have "map_of (map_delete rest k) k = None"
    by (simp add: map_of_map_delete)
  ultimately show ?thesis
    by (simp add: prune_loop_absent)
qed

lemma cache_map_prune:
  "lifetime (options c) = Some l \<Longrightarrow> duration l = Some d \<Longrightarrow> d \<noteq> 0 \<Longrightarrow>
   cache_map (snd (prune now c)) = snd (prune_loop (cache_map c) (now - d) 0 (cache_map c))"
  by (simp add: prune_def Let_def split: prod.splits option.splits)

lemma options_prune: "options (snd (prune now c)) = options c"
  by (simp add: prune_def Let_def split: prod.splits option.splits)

text \<open>A cache for which the constructor started no timer is not changed by \<^verbatim>\<open>prune\<close>.\<close>

lemma prune_without_timer: "prune_interval c = None \<Longrightarrow> prune now c = (Inr (), c)"
  by (auto simp: prune_interval_def prune_def split: option.splits if_splits)

lemma prune_empty: "cache_map c = [] \<Longrightarrow> prune now c = (Inr (), c)"
  by (simp add: prune_def prune_loop_Nil split: option.splits)

section \<open>The store along a history\<close>

lemma keys_map_set: "fst ` set (map_set m k v) = insert k (fst ` set m)"
proof (induction m)
  case Nil
  then show ?case by simp
next
  case (Cons a m)
  then show ?case by (cases a) auto
qed

lemma distinct_map_set: "distinct (map fst m) \<Longrightarrow> distinct (map fst (map_set m k v))"
  by (induction m) (auto simp: keys_map_set)

lemma keys_map_delete: "fst ` set (map_delete m k) = fst ` set m - {k}"
proof (induction m)
  case Nil
  then show ?case by simp
next
  case (Cons a m)
  then show ?case by (cases a) auto
qed

lemma distinct_map_delete: "distinct (map fst m) \<Longrightarrow> distinct (map fst (map_delete m k))"
  by (induction m) (auto simp: keys_map_delete)

lemma store_ok_Nil: "store_ok []"
  by (simp add: store_ok_def)

lemma store_ok_map_delete: "store_ok m \<Longrightarrow> store_ok (map_delete m k)"
  by (simp add: store_ok_def distinct_map_delete keys_map_delete)

lemma store_ok_map_set:
  "store_ok m \<Longrightarrow> k \<noteq> Undefined \<Longrightarrow> k \<noteq> Null \<Longrightarrow> store_ok (map_set m k v)"
  by (auto simp: store_ok_def distinct_map_set keys_map_set)

lemma store_ok_deletes: "store_ok m \<Longrightarrow> store_ok (foldl map_delete m ks)"
  by (induction ks arbitrary: m) (auto simp: store_ok_map_delete)

lemma store_ok_prune_loop:
  "store_ok m \<Longrightarrow> store_ok (snd (prune_loop entries expired i m))"
  using prune_loop_deletes [of entries expired i m] by (auto simp: store_ok_deletes)

lemma store_ok_prune_loop_eq:
  "store_ok m \<Longrightarrow> prune_loop entries expired i m = (r, m') \<Longrightarrow> store_ok m'"
  using store_ok_prune_loop [of m entries expired i] by simp

lemma evict_Inr: "evict c = Inr m \<Longrightarrow> store_ok (cache_map c) \<Longrightarrow> store_ok m"
  by (auto simp: evict_def simp del: map_delete.simps intro: store_ok_map_delete
      split: if_splits list.splits)

text \<open>
  The ways \<^verbatim>\<open>add\<close> can end before it touches the map, and what it does otherwise.
\<close>

lemma duplicate_check_Inl: "duplicate_check c h k b = Inl e \<Longrightarrow> e = TypeError"
  by (auto simp: duplicate_check_def dest: template_string_Inl split: if_splits sum.splits)

lemma duplicate_check_Inr:
  "duplicate_check c h k b = Inr rejected \<Longrightarrow>
   rejected = None \<or> rejected = Some (Inl AddFailed)"
  by (auto simp: duplicate_check_def split: if_splits sum.splits)

lemma duplicate_check_new_key:
  "\<not> map_has (cache_map c) k \<Longrightarrow> duplicate_check c h k b = Inr None"
  by (simp add: duplicate_check_def)

lemma cache_add_unchanged:
  assumes "k = Undefined \<or> k = Null \<or> isl (toString h k) \<or> toString h k = Inr []
      \<or> v = Undefined \<or> v = Null
      \<or> isl (duplicate_check c h k
             (throwOnExist ao = Some True \<or> duplicateAddThrows (options c) = Some True))
      \<or> isl (evict c)"
  shows "snd (cache_add c h k v ao now) = (c, h)"
  using assms
  by (cases "toString h k"; cases "evict c";
      cases "duplicate_check c h k
             (throwOnExist ao = Some True \<or> duplicateAddThrows (options c) = Some True)")
    (auto simp: cache_add_def Let_def)

lemma cache_add_reaches_map:
  assumes "toString h k = Inr s" and "s \<noteq> []"
    and "v \<noteq> Undefined" and "v \<noteq> Null"
    and "duplicate_check c h k
             (throwOnExist ao = Some True \<or> duplicateAddThrows (options c) = Some True) = Inr rejected"
    and "evict c = Inr m"
    and "addAs = (case addObjectAs ao of
                    Some a \<Rightarrow> a
                  | None \<Rightarrow> (case addObjectsAs (options c) of Some a \<Rightarrow> a | None \<Rightarrow> ByReference))"
  shows "cache_add c h k v ao now =
     (case stored_value h addAs v of
        Inl thrown \<Rightarrow> (settle rejected (Inl thrown), c\<lparr>cache_map := m\<rparr>, h)
      | Inr (stored, h') \<Rightarrow>
          (settle rejected (Inr ()),
           c\<lparr>cache_map := map_set m k \<lparr>key = k, value' = stored, timestamp = now\<rparr>\<rparr>,
           h'))"
proof -
  have "k \<noteq> Undefined" "k \<noteq> Null"
    using assms(1) by auto
  then show ?thesis
    using assms by (simp add: cache_add_def Let_def)
qed

lemma cache_add_stores:
  assumes "toString h k = Inr s" and "s \<noteq> []"
    and "v \<noteq> Undefined" and "v \<noteq> Null"
    and "duplicate_check c h k
             (throwOnExist ao = Some True \<or> duplicateAddThrows (options c) = Some True) = Inr rejected"
    and "evict c = Inr m"
    and "addAs = (case addObjectAs ao of
                    Some a \<Rightarrow> a
                  | None \<Rightarrow> (case addObjectsAs (options c) of Some a \<Rightarrow> a | None \<Rightarrow> ByReference))"
    and "stored_value h addAs v = Inr (stored, h')"
  shows "cache_add c h k v ao now =
     (settle rejected (Inr ()),
      c\<lparr>cache_map := map_set m k \<lparr>key = k, value' = stored, timestamp = now\<rparr>\<rparr>,
      h')"
  using cache_add_reaches_map [OF assms(1-7), of now] assms(8) by simp

lemma cache_add_ok:
  assumes "store_ok (cache_map c)"
  shows "store_ok (cache_map (fst (snd (cache_add c h k v ao now))))
     \<and> options (fst (snd (cache_add c h k v ao now))) = options c"
proof (cases "k = Undefined \<or> k = Null \<or> isl (toString h k) \<or> toString h k = Inr []
      \<or> v = Undefined \<or> v = Null
      \<or> isl (duplicate_check c h k
             (throwOnExist ao = Some True \<or> duplicateAddThrows (options c) = Some True))
      \<or> isl (evict c)")
  case True
  then show ?thesis
    using assms by (simp add: cache_add_unchanged)
next
  case False
  then obtain s rejected m where ok: "toString h k = Inr s" "s \<noteq> []"
      "duplicate_check c h k
             (throwOnExist ao = Some True \<or> duplicateAddThrows (options c) = Some True) = Inr rejected"
      "evict c = Inr m"
    by (cases "toString h k"; cases "evict c";
        cases "duplicate_check c h k
             (throwOnExist ao = Some True \<or> duplicateAddThrows (options c) = Some True)") auto
  have "store_ok m" "store_ok (map_set m k obj)" for obj
    using False ok(4) assms by (simp_all add: evict_Inr store_ok_map_set)
  then show ?thesis
    using False cache_add_reaches_map [OF ok(1,2) _ _ ok(3,4) refl, of v now]
    by (auto split: sum.splits)
qed

lemma cache_pop_then_ok:
  "store_ok (cache_map c) \<Longrightarrow>
   store_ok (cache_map (snd (cache_pop_then c k got)))
     \<and> options (snd (cache_pop_then c k got)) = options c"
  by (auto simp: cache_pop_then_def store_ok_map_delete split: sum.splits)

lemma prune_ok:
  "store_ok (cache_map c) \<Longrightarrow>
   store_ok (cache_map (snd (prune now c))) \<and> options (snd (prune now c)) = options c"
  by (auto simp: prune_def Let_def split: option.splits prod.splits
      dest: store_ok_prune_loop_eq)

lemma call_effect_ok:
  assumes "store_ok (cache_map c)"
  shows "store_ok (cache_map (fst (call_effect (c, h) x)))
     \<and> options (fst (call_effect (c, h) x)) = options c"
proof (cases x)
  case (Add k v ao now)
  then show ?thesis
    using cache_add_ok [OF assms, of h k v ao now] by simp
next
  case (PopThen k v)
  then show ?thesis
    using cache_pop_then_ok [OF assms, of k "Inr v"] by simp
next
  case Clear
  then show ?thesis
    by (simp add: cache_clear_def store_ok_Nil)
next
  case (Prune now)
  then show ?thesis
    using prune_ok [OF assms, of now] by simp
qed (use assms in simp_all)

lemma history_ok:
  "store_ok (cache_map c0) \<Longrightarrow> foldl call_effect (c0, h0) calls = (c, h) \<Longrightarrow>
   store_ok (cache_map c) \<and> options c = options c0"
proof (induction calls arbitrary: c0 h0)
  case Nil
  then show ?case by simp
next
  case (Cons x calls)
  obtain c1 h1 where step: "call_effect (c0, h0) x = (c1, h1)"
    by (cases "call_effect (c0, h0) x")
  have "store_ok (cache_map c1) \<and> options c1 = options c0"
    using call_effect_ok [OF Cons.prems(1), of h0 x] step by simp
  moreover have "foldl call_effect (c1, h1) calls = (c, h)"
    using Cons.prems(2) step by simp
  ultimately show ?case
    using Cons.IH [of c1 h1] by simp
qed

lemma new_Cache_history:
  assumes "foldl call_effect (new_Cache opts, h0) calls = (c, h)"
  shows "store_ok (cache_map c) \<and> options c = options (new_Cache opts)"
  using history_ok [OF _ assms] by (simp add: new_Cache_def store_ok_Nil)

section \<open>Reading a key that has no entry\<close>

lemma get_absent_rejects:
  "\<not> map_has (cache_map c) k \<Longrightarrow> throwOnEmpty (options c) = Some True \<or> t = Some True \<Longrightarrow>
   cache_get c h k t = (case toString h k of Inl thrown \<Rightarrow> Inl thrown | Inr s \<Rightarrow> Inl GetFailed)"
  by (auto simp: cache_get_def)

lemma get_absent_resolves:
  "\<not> map_has (cache_map c) k \<Longrightarrow> throwOnEmpty (options c) \<noteq> Some True \<Longrightarrow>
   t \<noteq> Some True \<Longrightarrow> cache_get c h k t = Inr Undefined"
  by (simp add: cache_get_def map_has_def map_get_def)

lemma get_present:
  "map_get (cache_map c) k = Some e \<Longrightarrow>
   cache_get c h k t = Inr (if truthy (value' e) then value' e else Undefined)"
  by (simp add: cache_get_def map_has_def map_get_def)

section \<open>Expiry and reads\<close>

text \<open>
  Claim C1, as the code has it. \<^verbatim>\<open>get\<close>, \<^verbatim>\<open>pop\<close> and \<^verbatim>\<open>has\<close> read the map and
  nothing else: they take no time and compare no timestamp. Take a cache constructed
  with a truthy \<^verbatim>\<open>lifetime.duration\<close> \<open>d\<close>, after any history of calls and prune
  ticks, and a key \<open>k\<close> that has an entry \<open>e\<close> (of a truthy value) in its store. Then
  \<^verbatim>\<open>has(k)\<close> is true, \<^verbatim>\<open>get(k)\<close> returns the value and \<^verbatim>\<open>pop(k)\<close> reads it and
  resolves with it, whatever the age of \<open>e\<close>. A prune tick at time \<open>now\<close> keeps the
  entry when its age \<open>now - timestamp e\<close> is at most \<open>d\<close>. When the age exceeds \<open>d\<close>
  and \<open>k\<close> is the first key of the map (the map keeps its keys in the order in which
  they were inserted; adding a key that is present renews its timestamp and not its
  place, so the first key need not have the oldest entry), the tick removes the
  entry. From then on \<^verbatim>\<open>has\<close> is false and \<^verbatim>\<open>get\<close> answers as
  for a key that was never added: it rejects when \<^verbatim>\<open>throwOnEmpty\<close> is \<^verbatim>\<open>true\<close> in
  the call, or is left out of the call and is \<^verbatim>\<open>true\<close> in the constructor's options,
  and resolves with \<^verbatim>\<open>undefined\<close> when it is \<^verbatim>\<open>true\<close> in neither.
\<close>

theorem expiry_is_decided_by_prune:
  assumes "lifetime opts = Some l" and "duration l = Some d" and "d \<noteq> 0"
    and "foldl call_effect (new_Cache (Some opts), h0) calls = (c, h)"
    and "map_get (cache_map c) k = Some e" and "truthy (value' e)"
  shows "cache_has c k = Inr True
     \<and> cache_get c h k t = Inr (value' e)
     \<and> cache_pop_call c h k t = Continues k (Inr (value' e))
     \<and> fst (cache_pop c h k t) = Inr (value' e)
     \<and> (now - timestamp e \<le> d \<longrightarrow>
          cache_has (snd (prune now c)) k = Inr True
        \<and> cache_get (snd (prune now c)) h k t = Inr (value' e))
     \<and> (d < now - timestamp e \<and> fst (hd (cache_map c)) = k \<longrightarrow>
          cache_has (snd (prune now c)) k = Inr False
        \<and> (t = Some True \<or> t = None \<and> throwOnEmpty opts = Some True \<longrightarrow>
             cache_get (snd (prune now c)) h k t =
               (case toString h k of Inl thrown \<Rightarrow> Inl thrown | Inr s \<Rightarrow> Inl GetFailed))
        \<and> (t \<noteq> Some True \<and> throwOnEmpty opts \<noteq> Some True \<longrightarrow>
             cache_get (snd (prune now c)) h k t = Inr Undefined))"
proof -
  have reached: "store_ok (cache_map c)" "options c = opts"
    using new_Cache_history [OF assms(4)] by (simp_all add: new_Cache_def)
  have dur: "lifetime (options c) = Some l"
    using reached(2) assms(1) by simp
  have present: "map_of (cache_map c) k = Some e"
    using assms(5) by (simp add: map_get_def)
  have uniq: "distinct (map fst (cache_map c))"
    using reached(1) by (simp add: store_ok_def)
  have has: "cache_has c k = Inr True"
    using present by (simp add: cache_has_def map_has_def)
  have get: "cache_get c h k t = Inr (value' e)"
    using assms(5,6) by (simp add: get_present)
  have call: "cache_pop_call c h k t = Continues k (Inr (value' e))"
    using present get by (simp add: cache_pop_call_def map_has_def)
  have pop: "fst (cache_pop c h k t) = Inr (value' e)"
    using call by (simp add: cache_pop_def cache_pop_then_def)
  have early: "cache_has (snd (prune now c)) k = Inr True
      \<and> cache_get (snd (prune now c)) h k t = Inr (value' e)"
    if young: "now - timestamp e \<le> d"
  proof -
    have "\<not> timestamp obj < now - d" if "(k, obj) \<in> set (cache_map c)" for obj
    proof -
      have "obj = e"
        using that present uniq by simp
      then show ?thesis
        using young by simp
    qed
    then have "map_of (cache_map (snd (prune now c))) k = Some e"
      using present by (simp add: cache_map_prune [OF dur assms(2,3)] prune_loop_keeps)
    then show ?thesis
      using assms(6) by (simp add: cache_has_def cache_get_def map_has_def map_get_def)
  qed
  have late: "cache_has (snd (prune now c)) k = Inr False
      \<and> (t = Some True \<or> t = None \<and> throwOnEmpty opts = Some True \<longrightarrow>
             cache_get (snd (prune now c)) h k t =
               (case toString h k of Inl thrown \<Rightarrow> Inl thrown | Inr s \<Rightarrow> Inl GetFailed))
      \<and> (t \<noteq> Some True \<and> throwOnEmpty opts \<noteq> Some True \<longrightarrow>
             cache_get (snd (prune now c)) h k t = Inr Undefined)"
    if age: "d < now - timestamp e" and first: "fst (hd (cache_map c)) = k"
  proof -
    obtain rest where shape: "cache_map c = (k, e) # rest"
      using present first by (cases "cache_map c") (auto split: if_splits)
    have "timestamp e < now - d"
      using age by simp
    then have gone: "map_of (cache_map (snd (prune now c))) k = None"
      by (simp add: cache_map_prune [OF dur assms(2,3)] shape prune_loop_oldest)
    then have absent: "\<not> map_has (cache_map (snd (prune now c))) k"
      by (simp add: map_has_def)
    have opts: "options (snd (prune now c)) = opts"
      using reached(2) by (simp add: options_prune)
    show ?thesis
      using absent opts get_absent_rejects [OF absent, of t h]
        get_absent_resolves [OF absent, of t h]
      by (auto simp: cache_has_def)
  qed
  show ?thesis
    using has get call pop early late by blast
qed

text \<open>
  The scenario of the claim: duration \<open>500\<close>, one entry added at time \<open>0\<close>. It is
  read at any time before a tick removes it; a tick at \<open>400\<close> keeps it, a tick at
  \<open>600\<close> removes it.
\<close>

theorem expiry_is_decided_by_prune_witness:
  "(case foldl call_effect
       (new_Cache (Some (no_options\<lparr>lifetime := Some \<lparr>duration = Some 500, frequency = None\<rparr>\<rparr>)), [])
       [Add (Str ''k'') (Str ''v'') no_add_options 0] of
      (c, h) \<Rightarrow>
        cache_has c (Str ''k'') = Inr True
      \<and> cache_get c h (Str ''k'') None = Inr (Str ''v'')
      \<and> cache_pop_call c h (Str ''k'') None = Continues (Str ''k'') (Inr (Str ''v''))
      \<and> cache_has (snd (prune 400 c)) (Str ''k'') = Inr True
      \<and> cache_get (snd (prune 400 c)) h (Str ''k'') None = Inr (Str ''v'')
      \<and> cache_has (snd (prune 600 c)) (Str ''k'') = Inr False
      \<and> cache_get (snd (prune 600 c)) h (Str ''k'') None = Inr Undefined)"
proof -
  let ?l = "\<lparr>duration = Some 500, frequency = None\<rparr>"
  let ?opts = "no_options\<lparr>lifetime := Some ?l\<rparr>"
  let ?e = "\<lparr>key = Str ''k'', value' = Str ''v'', timestamp = 0\<rparr>"
  let ?c = "\<lparr>options = ?opts, cache_map = [(Str ''k'', ?e)]\<rparr>"
  have added:
    "foldl call_effect (new_Cache (Some ?opts), [])
       [Add (Str ''k'') (Str ''v'') no_add_options 0] = (?c, [])"
    by code_simp
  have "cache_has ?c (Str ''k'') = Inr True
      \<and> cache_get ?c [] (Str ''k'') None = Inr (Str ''v'')
      \<and> cache_pop_call ?c [] (Str ''k'') None = Continues (Str ''k'') (Inr (Str ''v''))
      \<and> cache_has (snd (prune 400 ?c)) (Str ''k'') = Inr True
      \<and> cache_get (snd (prune 400 ?c)) [] (Str ''k'') None = Inr (Str ''v'')
      \<and> cache_has (snd (prune 600 ?c)) (Str ''k'') = Inr False
      \<and> cache_get (snd (prune 600 ?c)) [] (Str ''k'') None = Inr Undefined"
    using
      expiry_is_decided_by_prune [OF _ _ _ added, where l = ?l and d = 500 and k = "Str ''k''"
        and e = ?e and now = 400 and t = None]
      expiry_is_decided_by_prune [OF _ _ _ added, where l = ?l and d = 500 and k = "Str ''k''"
        and e = ?e and now = 600 and t = None]
    by (simp add: no_options_def map_get_def)
  then show ?thesis
    by (simp only: added prod.case)
qed

text \<open>
  Against the claim as stated: duration \<open>500\<close>, the timer at its default period of
  \<open>500\<close>, one entry added at time \<open>0\<close>. The tick at time \<open>500\<close> keeps the entry, whose
  age is then \<open>500\<close>. Its timestamp is \<open>0\<close>, so at time \<open>600\<close> its age is \<open>600\<close>, more
  than the duration, and \<^verbatim>\<open>has\<close> is still true and \<^verbatim>\<open>get\<close> and \<^verbatim>\<open>pop\<close> still
  return the value.
\<close>

theorem expired_entry_is_still_read:
  "prune_interval
     (fst (foldl call_effect
          (new_Cache (Some (no_options\<lparr>lifetime := Some \<lparr>duration = Some 500, frequency = None\<rparr>\<rparr>)), [])
          [Add (Str ''k'') (Str ''v'') no_add_options 0, Prune 500])) = Some 500
   \<and> map (timestamp \<circ> snd) (cache_map
     (fst (foldl call_effect
          (new_Cache (Some (no_options\<lparr>lifetime := Some \<lparr>duration = Some 500, frequency = None\<rparr>\<rparr>)), [])
          [Add (Str ''k'') (Str ''v'') no_add_options 0, Prune 500]))) = [0]
   \<and> (500::int) < 600 - 0
   \<and> cache_has
     (fst (foldl call_effect
          (new_Cache (Some (no_options\<lparr>lifetime := Some \<lparr>duration = Some 500, frequency = None\<rparr>\<rparr>)), [])
          [Add (Str ''k'') (Str ''v'') no_add_options 0, Prune 500])) (Str ''k'') = Inr True
   \<and> cache_get
     (fst (foldl call_effect
          (new_Cache (Some (no_options\<lparr>lifetime := Some \<lparr>duration = Some 500, frequency = None\<rparr>\<rparr>)), [])
          [Add (Str ''k'') (Str ''v'') no_add_options 0, Prune 500])) [] (Str ''k'') None = Inr (Str ''v'')
   \<and> fst (cache_pop
     (fst (foldl call_effect
          (new_Cache (Some (no_options\<lparr>lifetime := Some \<lparr>duration = Some 500, frequency = None\<rparr>\<rparr>)), [])
          [Add (Str ''k'') (Str ''v'') no_add_options 0, Prune 500])) [] (Str ''k'') None) = Inr (Str ''v'')"
  by code_simp

section \<open>Adding under the duplicate policy\<close>

text \<open>
  Claim C2 says that, under a true duplicate policy, \<^verbatim>\<open>add\<close> on a key that is
  present rejects and leaves the store unchanged, so that \<^verbatim>\<open>get\<close> still yields the
  first value. The duplicate branch of \<^verbatim>\<open>add\<close> rejects without returning: with
  \<^verbatim>\<open>duplicateAddThrows: true\<close>, after \<^verbatim>\<open>add(k, v1)\<close> the call \<^verbatim>\<open>add(k, v2)\<close> is
  rejected with \<open>AddFailed\<close>, and yet the store has changed and \<^verbatim>\<open>get(k)\<close> yields
  \<open>v2\<close>.
\<close>

theorem rejected_duplicate_add_replaces:
  "(case cache_add (new_Cache (Some (no_options\<lparr>duplicateAddThrows := Some True\<rparr>)))
       [] (Str ''k'') (Str ''v1'') no_add_options 0 of
      (r1, c1, h1) \<Rightarrow>
        (case cache_add c1 h1 (Str ''k'') (Str ''v2'') no_add_options 1 of
           (r2, c2, h2) \<Rightarrow>
             r1 = Inr ()
           \<and> cache_get c1 h1 (Str ''k'') None = Inr (Str ''v1'')
           \<and> r2 = Inl AddFailed
           \<and> c2 \<noteq> c1
           \<and> cache_get c2 h2 (Str ''k'') None = Inr (Str ''v2'')))"
  by code_simp

section \<open>Reading back what was added\<close>

text \<open>
  After an \<^verbatim>\<open>add\<close> that reached the map, the entry is set with the value as the
  storage mode has it, and a \<^verbatim>\<open>get\<close> that follows resolves with that value when it
  is truthy.
\<close>

lemma stored_value_primitive:
  "typeof v \<noteq> ''object'' \<Longrightarrow> stored_value h addAs v = Inr (v, h)"
  by (simp add: stored_value_def)

lemma stored_value_object:
  "stored_value h ByReference (Obj r) = Inr (Obj r, h)"
  "stored_value h Stringify (Obj r) =
     (case obj_json (deref h r) of
        Json_throws \<Rightarrow> Inl TypeError
      | Json_undefined \<Rightarrow> Inr (Undefined, h)
      | Json_text s \<Rightarrow> Inr (Str s, h))"
  "stored_value h Clone (Obj r) = Inr (Obj (length h), h @ [deref h r])"
  by (simp_all add: stored_value_def split: json_outcome.splits)

lemma stored_value_Inl: "stored_value h addAs v = Inl e \<Longrightarrow> e = TypeError"
  by (auto simp: stored_value_def dest: JSON_stringify_Inl split: if_splits sum.splits)

lemma clone_is_a_copy:
  "r < length h \<Longrightarrow> Obj (length h) \<noteq> Obj r \<and> deref (h @ [deref h r]) (length h) = deref h r
     \<and> deref (h @ [deref h r]) r = deref h r"
  by (simp add: deref_def nth_append)

lemma add_then_get:
  assumes "toString h k = Inr s" and "s \<noteq> []"
    and "v \<noteq> Undefined" and "v \<noteq> Null"
    and "duplicate_check c h k
             (throwOnExist ao = Some True \<or> duplicateAddThrows (options c) = Some True) = Inr rejected"
    and "evict c = Inr m"
    and "addAs = (case addObjectAs ao of
                    Some a \<Rightarrow> a
                  | None \<Rightarrow> (case addObjectsAs (options c) of Some a \<Rightarrow> a | None \<Rightarrow> ByReference))"
    and "stored_value h addAs v = Inr (stored, h')"
    and "cache_add c h k v ao now = (r, c', h'')"
  shows "h'' = h' \<and> cache_has c' k = Inr True
     \<and> cache_get c' h' k t = Inr (if truthy stored then stored else Undefined)"
proof -
  have "c' = c\<lparr>cache_map := map_set m k \<lparr>key = k, value' = stored, timestamp = now\<rparr>\<rparr>"
      "h'' = h'"
    using cache_add_stores [OF assms(1-8), of now] assms(9) by simp_all
  moreover from this have "map_of (cache_map c') k =
      Some \<lparr>key = k, value' = stored, timestamp = now\<rparr>"
    by (simp add: map_of_map_set)
  ultimately show ?thesis
    by (simp add: cache_has_def cache_get_def map_has_def map_get_def)
qed

text \<open>
  Claim C3 says that \<^verbatim>\<open>get\<close> returns the stored value of every valid pair, the
  number \<open>0\<close> and the empty string included. \<^verbatim>\<open>add\<close> accepts both and stores them;
  \<^verbatim>\<open>get\<close> resolves with \<^verbatim>\<open>entry?.value || undefined\<close>, which is \<^verbatim>\<open>undefined\<close>
  for either.
\<close>

theorem falsy_value_is_read_as_undefined:
  "(case cache_add (new_Cache None) [] (Str ''k'') (Num 0) no_add_options 0 of
      (r, c, h) \<Rightarrow>
        r = Inr ()
      \<and> map_get (cache_map c) (Str ''k'')
          = Some \<lparr>key = Str ''k'', value' = Num 0, timestamp = 0\<rparr>
      \<and> cache_get c h (Str ''k'') None = Inr Undefined)
   \<and> (case cache_add (new_Cache None) [] (Str ''k'') (Str []) no_add_options 0 of
      (r, c, h) \<Rightarrow>
        r = Inr ()
      \<and> map_get (cache_map c) (Str ''k'')
          = Some \<lparr>key = Str ''k'', value' = Str [], timestamp = 0\<rparr>
      \<and> cache_get c h (Str ''k'') None = Inr Undefined)"
  by code_simp

section \<open>Eviction at the limit\<close>

text \<open>
  With a limit \<open>n > 0\<close> the store never holds more than \<open>n\<close> entries.
\<close>

lemma length_add_within_limit:
  assumes "limit (options c) = Some (int n)" and "0 < n" and "length (cache_map c) \<le> n"
  shows "length (cache_map (fst (snd (cache_add c h k v ao now)))) \<le> n"
proof (cases "k = Undefined \<or> k = Null \<or> isl (toString h k) \<or> toString h k = Inr []
      \<or> v = Undefined \<or> v = Null
      \<or> isl (duplicate_check c h k
             (throwOnExist ao = Some True \<or> duplicateAddThrows (options c) = Some True))
      \<or> isl (evict c)")
  case True
  then show ?thesis
    using assms(3) by (simp add: cache_add_unchanged)
next
  case False
  then obtain s rejected m where ok: "toString h k = Inr s" "s \<noteq> []"
      "duplicate_check c h k
             (throwOnExist ao = Some True \<or> duplicateAddThrows (options c) = Some True) = Inr rejected"
      "evict c = Inr m"
    by (cases "toString h k"; cases "evict c";
        cases "duplicate_check c h k
             (throwOnExist ao = Some True \<or> duplicateAddThrows (options c) = Some True)") auto
  have "Suc (length m) \<le> n"
  proof (cases "length (cache_map c) = n")
    case True
    then obtain k0 e0 rest where shape: "cache_map c = (k0, e0) # rest"
      using assms(2) by (cases "cache_map c") auto
    then have "m = map_delete rest k0"
      using ok(4) assms(1) True by (simp add: evict_def map_size_def)
    then have "length m \<le> length rest"
      by (simp add: length_map_delete_le)
    then show ?thesis
      using shape True by simp
  next
    case False
    then have "m = cache_map c"
      using ok(4) assms(1) by (simp add: evict_def map_size_def)
    then show ?thesis
      using False assms(3) by simp
  qed
  then have "length m \<le> n" "length (map_set m k obj) \<le> n" for obj :: CacheObject
    using length_map_set_le [of m k obj] by simp_all
  then show ?thesis
    using False cache_add_reaches_map [OF ok(1,2) _ _ ok(3,4) refl, of v now]
    by (auto split: sum.splits)
qed

lemma length_pop_then:
  "length (cache_map (snd (cache_pop_then c k got))) \<le> length (cache_map c)"
  by (auto simp: cache_pop_then_def length_map_delete_le split: sum.splits)

lemma call_effect_within_limit:
  assumes "limit (options c) = Some (int n)" and "0 < n" and "length (cache_map c) \<le> n"
  shows "length (cache_map (fst (call_effect (c, h) x))) \<le> n"
proof (cases x)
  case (Add k v ao now)
  then show ?thesis
    using length_add_within_limit [OF assms, of h k v ao now] by simp
next
  case (PopThen k v)
  then show ?thesis
    using length_pop_then [of c k "Inr v"] assms(3) by simp
next
  case Clear
  then show ?thesis
    by (simp add: cache_clear_def)
next
  case (Prune now)
  then show ?thesis
    using length_prune [of now c] assms(3) by simp
qed (use assms in simp_all)

lemma history_within_limit:
  assumes "limit (options c0) = Some (int n)" and "0 < n" and "length (cache_map c0) \<le> n"
    and "store_ok (cache_map c0)"
    and "foldl call_effect (c0, h0) calls = (c, h)"
  shows "length (cache_map c) \<le> n"
  using assms
proof (induction calls arbitrary: c0 h0)
  case Nil
  then show ?case by simp
next
  case (Cons x calls)
  obtain c1 h1 where step: "call_effect (c0, h0) x = (c1, h1)"
    by (cases "call_effect (c0, h0) x")
  have "length (cache_map c1) \<le> n"
    using call_effect_within_limit [OF Cons.prems(1-3), of h0 x] step by simp
  moreover have "store_ok (cache_map c1)" "options c1 = options c0"
    using call_effect_ok [OF Cons.prems(4), of h0 x] step by simp_all
  moreover have "foldl call_effect (c1, h1) calls = (c, h)"
    using Cons.prems(5) step by simp
  ultimately show ?case
    using Cons.IH [of c1 h1] Cons.prems(1,2) by simp
qed

lemma new_Cache_within_limit:
  assumes "limit opts = Some (int n)" and "0 < n"
    and "foldl call_effect (new_Cache (Some opts), h0) calls = (c, h)"
  shows "length (cache_map c) \<le> n"
  using history_within_limit [OF _ assms(2) _ _ assms(3)] assms(1)
  by (simp add: new_Cache_def store_ok_Nil)

text \<open>
  At capacity, a key that is new: the oldest entry goes and the new one is appended.
\<close>

lemma add_new_key_at_capacity:
  assumes "store_ok (cache_map c)"
    and "cache_map c = (k0, e0) # rest"
    and "limit (options c) = Some (map_size (cache_map c))"
    and "toString h k = Inr s" and "s \<noteq> []"
    and "v \<noteq> Undefined" and "v \<noteq> Null"
    and "\<not> map_has (cache_map c) k"
    and "addAs = (case addObjectAs ao of
                    Some a \<Rightarrow> a
                  | None \<Rightarrow> (case addObjectsAs (options c) of Some a \<Rightarrow> a | None \<Rightarrow> ByReference))"
    and "stored_value h addAs v = Inr (stored, h')"
  shows "cache_add c h k v ao now =
     (Inr (),
      c\<lparr>cache_map := rest @ [(k, \<lparr>key = k, value' = stored, timestamp = now\<rparr>)]\<rparr>,
      h')"
proof -
  have "k0 \<notin> fst ` set rest"
    using assms(1,2) by (simp add: store_ok_def)
  then have ev: "evict c = Inr rest"
    using assms(2,3) by (simp add: evict_def map_delete_absent)
  have "map_of (cache_map c) k = None"
    using assms(8) by (simp add: map_has_def)
  then have "k \<notin> fst ` set rest"
    using assms(2) by (auto simp: map_of_eq_None_iff split: if_splits)
  then have "map_set rest k obj = rest @ [(k, obj)]" for obj
    by (rule map_set_absent)
  then show ?thesis
    using cache_add_stores
      [OF assms(4-7) duplicate_check_new_key [OF assms(8)] ev assms(9,10), of now]
    by simp
qed

text \<open>
  Claim C4 says that \<^verbatim>\<open>add\<close> evicts the oldest entry only when the insert would
  make the count exceed the limit, never when it replaces a key at capacity. The
  test in \<^verbatim>\<open>add\<close> is \<^verbatim>\<open>this.options.limit === this.map.size\<close>, whether the key is
  new or not. With limit \<open>2\<close>: after \<open>a\<close>, \<open>b\<close>, \<open>c\<close> the store holds \<open>b\<close> and \<open>c\<close>, as
  the claim says; after \<open>a\<close>, \<open>b\<close> and \<open>b\<close> again, \<open>a\<close> has been evicted and the store
  holds one entry.
\<close>

theorem replacing_at_capacity_evicts:
  "(case cache_add (new_Cache (Some (no_options\<lparr>limit := Some 2\<rparr>)))
       [] (Str ''a'') (Num 1) no_add_options 0 of
      (r1, c1, h1) \<Rightarrow>
        (case cache_add c1 h1 (Str ''b'') (Num 2) no_add_options 1 of
           (r2, c2, h2) \<Rightarrow>
             (case (cache_add c2 h2 (Str ''c'') (Num 3) no_add_options 2,
                    cache_add c2 h2 (Str ''b'') (Num 3) no_add_options 2) of
                ((r3, c3, h3), (r4, c4, h4)) \<Rightarrow>
                  r1 = Inr () \<and> r2 = Inr () \<and> r3 = Inr () \<and> r4 = Inr ()
                \<and> map fst (cache_map c2) = [Str ''a'', Str ''b'']
                \<and> map fst (cache_map c3) = [Str ''b'', Str ''c'']
                \<and> map fst (cache_map c4) = [Str ''b'']
                \<and> cache_has c4 (Str ''a'') = Inr False)))"
  by code_simp

section \<open>One prune tick\<close>

text \<open>
  Claim C5 says that after one prune tick no entry is left whose age exceeds the
  duration. The loop of \<^verbatim>\<open>prune\<close> runs while \<^verbatim>\<open>i < this.map.size\<close>, and every
  deletion makes that size smaller. With duration \<open>500\<close>, a tick every \<open>200\<close> and two
  entries added at time \<open>0\<close>: the ticks at \<open>200\<close> and \<open>400\<close> delete nothing, and the
  tick at \<open>600\<close> deletes the first entry, stops, and leaves the second, whose age is
  \<open>600\<close>.
\<close>

theorem prune_leaves_an_expired_entry:
  "(case foldl call_effect
       (new_Cache (Some (no_options\<lparr>lifetime := Some \<lparr>duration = Some 500, frequency = Some 200\<rparr>\<rparr>)), [])
       [Add (Str ''a'') (Str ''v'') no_add_options 0,
        Add (Str ''b'') (Str ''w'') no_add_options 0, Prune 200, Prune 400] of
      (c, h) \<Rightarrow>
        (case prune 600 c of
           (r, c') \<Rightarrow>
             prune_interval c = Some 200
           \<and> map fst (cache_map c) = [Str ''a'', Str ''b'']
           \<and> r = Inr ()
           \<and> cache_map c'
               = [(Str ''b'', \<lparr>key = Str ''b'', value' = Str ''w'', timestamp = 0\<rparr>)]
           \<and> map (\<lambda>(k, obj). 600 - timestamp obj) (cache_map c') = [600]
           \<and> cache_has c' (Str ''b'') = Inr True))"
  by code_simp

section \<open>The throw policy of get and pop\<close>

text \<open>
  Claim C6 says that a per-call \<^verbatim>\<open>throwOnEmpty\<close> of \<^verbatim>\<open>false\<close> overrides a
  constructor-level \<^verbatim>\<open>true\<close>. The code takes
  \<^verbatim>\<open>this.options.throwOnEmpty || throwOnEmpty\<close>: on a cache constructed with
  \<^verbatim>\<open>throwOnEmpty: true\<close>, \<^verbatim>\<open>get\<close> and \<^verbatim>\<open>pop\<close> of a missing key with a per-call
  \<^verbatim>\<open>false\<close> are both rejected.
\<close>

theorem call_level_false_does_not_override:
  "cache_get (new_Cache (Some (no_options\<lparr>throwOnEmpty := Some True\<rparr>))) []
       (Str ''missing'') (Some False)
     = Inl GetFailed
   \<and> cache_pop (new_Cache (Some (no_options\<lparr>throwOnEmpty := Some True\<rparr>))) []
       (Str ''missing'') (Some False)
     = (Inl PopError, new_Cache (Some (no_options\<lparr>throwOnEmpty := Some True\<rparr>)))"
  by code_simp

section \<open>pop\<close>

text \<open>The \<^verbatim>\<open>get\<close> inside \<^verbatim>\<open>pop\<close> is never rejected, so an awaited \<^verbatim>\<open>pop\<close> always settles.\<close>

lemma pop_settles: "fst (cache_pop c h k t) \<noteq> Inl Unsettled"
  by (auto simp: cache_pop_def cache_pop_call_def cache_pop_then_def cache_get_def
      dest: template_string_Inl split: sum.splits option.splits)




section \<open>Validation in add\<close>

text \<open>Once the key and the value have passed validation, no rejection is for an empty one.\<close>

lemma cache_add_after_validation:
  assumes "toString h k = Inr s" and "s \<noteq> []" and "v \<noteq> Undefined" and "v \<noteq> Null"
  shows "fst (cache_add c h k v ao now) = Inl TypeError
     \<or> fst (cache_add c h k v ao now) = Inl AddFailed
     \<or> fst (cache_add c h k v ao now) = Inr ()"
proof (cases "duplicate_check c h k
             (throwOnExist ao = Some True \<or> duplicateAddThrows (options c) = Some True)")
  case (Inl e)
  then have "e = TypeError"
    by (rule duplicate_check_Inl)
  moreover have "k \<noteq> Undefined" "k \<noteq> Null"
    using assms(1) by auto
  ultimately show ?thesis
    using Inl assms by (simp add: cache_add_def Let_def)
next
  case (Inr rejected)
  note dup = this
  have rej: "rejected = None \<or> rejected = Some (Inl AddFailed)"
    using dup by (rule duplicate_check_Inr)
  show ?thesis
  proof (cases "evict c")
    case (Inl e)
    then have "e = TypeError"
      by (rule evict_Inl)
    moreover have "k \<noteq> Undefined" "k \<noteq> Null"
      using assms(1) by auto
    ultimately show ?thesis
      using Inl dup rej assms by (auto simp: cache_add_def Let_def)
  next
    case (Inr m)
    show ?thesis
    proof (cases "stored_value h
        (case addObjectAs ao of
           Some a \<Rightarrow> a
         | None \<Rightarrow> (case addObjectsAs (options c) of Some a \<Rightarrow> a | None \<Rightarrow> ByReference)) v")
      case (Inl e)
      then have "e = TypeError"
        by (rule stored_value_Inl)
      then show ?thesis
        using Inl rej cache_add_reaches_map [OF assms dup Inr refl, of now] by auto
    next
      case (Inr stored)
      then show ?thesis
        using rej cache_add_reaches_map [OF assms dup \<open>evict c = Inr m\<close> refl, of now]
        by (auto split: prod.splits)
    qed
  qed
qed

text \<open>
  Claim C8, as the code has it. \<^verbatim>\<open>add\<close> rejects with \<open>EmptyKey\<close> exactly when the
  key is \<^verbatim>\<open>undefined\<close> or \<^verbatim>\<open>null\<close> or its \<^verbatim>\<open>toString()\<close> returns the empty
  string. For any other key whose \<^verbatim>\<open>toString()\<close> throws, \<^verbatim>\<open>add\<close> rejects with what
  was thrown, whatever the value. It rejects with \<open>EmptyValue\<close> exactly when the
  key's \<^verbatim>\<open>toString()\<close> returns a string that is not empty and the value is
  \<^verbatim>\<open>undefined\<close> or \<^verbatim>\<open>null\<close> (so a call with both empty is rejected for its key).
  After each of these rejections the cache and the heap are as they were.
\<close>

theorem add_validation:
  "(fst (cache_add c h k v ao now) = Inl EmptyKey
      \<longleftrightarrow> k = Undefined \<or> k = Null \<or> toString h k = Inr [])
   \<and> (k \<noteq> Undefined \<and> k \<noteq> Null \<and> toString h k = Inl thrown
      \<longrightarrow> fst (cache_add c h k v ao now) = Inl thrown)
   \<and> (fst (cache_add c h k v ao now) = Inl EmptyValue
      \<longleftrightarrow> (\<exists>s. toString h k = Inr s \<and> s \<noteq> []) \<and> (v = Undefined \<or> v = Null))
   \<and> (fst (cache_add c h k v ao now) = Inl EmptyKey
        \<or> fst (cache_add c h k v ao now) = Inl EmptyValue
        \<or> isl (toString h k)
      \<longrightarrow> snd (cache_add c h k v ao now) = (c, h))"
proof (cases "k = Undefined \<or> k = Null")
  case True
  then show ?thesis
    by (auto simp: cache_add_def Let_def)
next
  case False
  show ?thesis
  proof (cases "toString h k")
    case (Inl e)
    then have "e = TypeError"
      by (rule toString_Inl)
    then show ?thesis
      using False Inl by (simp add: cache_add_def Let_def)
  next
    case (Inr s)
    show ?thesis
    proof (cases "s = [] \<or> v = Undefined \<or> v = Null")
      case True
      then show ?thesis
        using False Inr by (auto simp: cache_add_def Let_def)
    next
      case valid: False
      then show ?thesis
        using False Inr cache_add_after_validation [of h k s v c ao now] by auto
    qed
  qed
qed

text \<open>
  On a cache that already holds an entry: an empty string key with a \<^verbatim>\<open>null\<close> value,
  an empty array as key (its \<^verbatim>\<open>toString()\<close> is empty), a key with no \<^verbatim>\<open>toString\<close>,
  and a good key with an \<^verbatim>\<open>undefined\<close> value.
\<close>

theorem add_validation_witness:
  "(case cache_add (new_Cache None)
          [\<lparr>obj_toString = Some [], obj_template = Some [], obj_json = Json_text ''[]''\<rparr>,
           \<lparr>obj_toString = None, obj_template = None, obj_json = Json_text ''{}''\<rparr>]
          (Str ''a'') (Num 1) no_add_options 0 of
      (r, c, h) \<Rightarrow>
        cache_add c h (Str []) Null no_add_options 1 = (Inl EmptyKey, c, h)
      \<and> cache_add c h (Obj 0) (Num 2) no_add_options 1 = (Inl EmptyKey, c, h)
      \<and> cache_add c h (Obj 1) (Num 2) no_add_options 1 = (Inl TypeError, c, h)
      \<and> cache_add c h (Str ''b'') Undefined no_add_options 1 = (Inl EmptyValue, c, h))"
proof -
  let ?h = "[\<lparr>obj_toString = Some [], obj_template = Some [], obj_json = Json_text ''[]''\<rparr>,
             \<lparr>obj_toString = None, obj_template = None, obj_json = Json_text ''{}''\<rparr>]"
  let ?c = "\<lparr>options = no_options,
             cache_map = [(Str ''a'', \<lparr>key = Str ''a'', value' = Num 1, timestamp = 0\<rparr>)]\<rparr>"
  have added:
    "cache_add (new_Cache None) ?h (Str ''a'') (Num 1) no_add_options 0 = (Inr (), ?c, ?h)"
    by code_simp
  have "cache_add ?c ?h (Str []) Null no_add_options 1 = (Inl EmptyKey, ?c, ?h)"
    using add_validation [of ?c ?h "Str []" Null no_add_options 1 TypeError]
    by (simp add: prod_eq_iff)
  moreover
  have "cache_add ?c ?h (Obj 0) (Num 2) no_add_options 1 = (Inl EmptyKey, ?c, ?h)"
    using add_validation [of ?c ?h "Obj 0" "Num 2" no_add_options 1 TypeError]
    by (simp add: prod_eq_iff deref_def)
  moreover
  have "cache_add ?c ?h (Obj 1) (Num 2) no_add_options 1 = (Inl TypeError, ?c, ?h)"
    using add_validation [of ?c ?h "Obj 1" "Num 2" no_add_options 1 TypeError]
    by (simp add: prod_eq_iff deref_def)
  moreover
  have "cache_add ?c ?h (Str ''b'') Undefined no_add_options 1 = (Inl EmptyValue, ?c, ?h)"
    using add_validation [of ?c ?h "Str ''b''" Undefined no_add_options 1 TypeError]
    by (simp add: prod_eq_iff)
  ultimately show ?thesis
    by (simp only: added prod.case simp_thms)
qed

text \<open>
  Against the claim as stated: a key that is an object with no \<^verbatim>\<open>toString\<close> (as
  \<^verbatim>\<open>Object.create(null)\<close>) is neither \<^verbatim>\<open>undefined\<close> nor \<^verbatim>\<open>null\<close>, and it has no
  string of length zero; with a \<^verbatim>\<open>null\<close> value the claim has \<^verbatim>\<open>add\<close> reject with
  \<open>EmptyValue\<close>. The call \<^verbatim>\<open>key.toString()\<close> of the key test throws, and \<^verbatim>\<open>add\<close>
  rejects with that \<open>TypeError\<close>.
\<close>

theorem key_without_toString_is_a_type_error:
  "Obj 0 \<noteq> Undefined \<and> Obj 0 \<noteq> Null
   \<and> toString [\<lparr>obj_toString = None, obj_template = None, obj_json = Json_text ''{}''\<rparr>] (Obj 0) \<noteq> Inr []
   \<and> fst (cache_add (new_Cache None) [\<lparr>obj_toString = None, obj_template = None, obj_json = Json_text ''{}''\<rparr>]
          (Obj 0) Null no_add_options 0) \<noteq> Inl EmptyValue
   \<and> cache_add (new_Cache None) [\<lparr>obj_toString = None, obj_template = None, obj_json = Json_text ''{}''\<rparr>]
          (Obj 0) Null no_add_options 0
       = (Inl TypeError, new_Cache None, [\<lparr>obj_toString = None, obj_template = None, obj_json = Json_text ''{}''\<rparr>])"
  by code_simp

section \<open>The memoized function\<close>

text \<open>
  When the result of \<^verbatim>\<open>fn\<close> is truthy (or the key is cached already), the second
  call returns what the first returned, at whatever time it is made.
\<close>

lemma memoized_twice:
  assumes "truthy a" and "JSON_stringify h a = Inr (Str s)" and "s \<noteq> []"
    and "options c = no_options"
    and "\<not> map_has (cache_map c) (Str s) \<Longrightarrow> truthy (f t1 a)"
    and "memoized_call (Memoized f c) h t1 a = (r1, m1, h1)"
  shows "fst (memoized_call m1 h1 t2 a) = r1"
proof (cases "map_has (cache_map c) (Str s)")
  case True
  then have "m1 = Memoized f c" "h1 = h" "r1 = cache_get c h (Str s) None"
    using assms(1,2,6) by (auto simp: cache_has_def)
  then show ?thesis
    using True assms(1,2) by (simp add: cache_has_def cache_get_def)
next
  case False
  let ?v = "f t1 a"
  let ?c' = "c\<lparr>cache_map := map_set (cache_map c) (Str s) \<lparr>key = Str s, value' = ?v, timestamp = t1\<rparr>\<rparr>"
  have v: "truthy ?v"
    using False assms(5) by simp
  then have valid: "?v \<noteq> Undefined" "?v \<noteq> Null"
    by auto
  have ev: "evict c = Inr (cache_map c)"
    using assms(4) by (simp add: evict_def no_options_def)
  have "cache_add c h (Str s) ?v no_add_options t1 = (Inr (), ?c', h)"
    using False valid assms(3,4) ev
    by (simp add: cache_add_def Let_def no_add_options_def no_options_def stored_value_def
        duplicate_check_def)
  then have first: "r1 = Inr ?v" "m1 = Memoized f ?c'" "h1 = h"
    using False assms(1,2,6) by (simp_all add: cache_has_def Let_def)
  have "map_of (cache_map ?c') (Str s) = Some \<lparr>key = Str s, value' = ?v, timestamp = t1\<rparr>"
    by (simp add: map_of_map_set)
  then show ?thesis
    using first v assms(1,2)
    by (simp add: cache_has_def cache_get_def map_has_def map_get_def Let_def)
qed

text \<open>
  Claim C9 says that two calls of the memoized function with the same truthy
  argument return the same result. They do when the result is truthy: with
  \<^verbatim>\<open>f(x) = now - x\<close> the second call with \<open>5\<close>, at time \<open>1600\<close>, returns the \<open>995\<close>
  computed at time \<open>1000\<close>. With \<^verbatim>\<open>f(x) = x - 5\<close> the first call with \<open>5\<close> returns
  \<open>0\<close>, which the cache stores, and the second call returns \<^verbatim>\<open>undefined\<close>, read
  back through \<^verbatim>\<open>get\<close>. A call with \<^verbatim>\<open>undefined\<close> or with \<open>0\<close> is rejected for
  its missing argument.
\<close>

theorem memoized_falsy_result_is_lost:
  "(case memoizer (Inr (\<lambda>now x. case x of Num n \<Rightarrow> Num (now - n) | _ \<Rightarrow> Undefined)) of
      Inl e \<Rightarrow> False
    | Inr m0 \<Rightarrow>
        (case memoized_call m0 [] 1000 (Num 5) of
           (r1, m1, h1) \<Rightarrow>
             (case memoized_call m1 h1 1600 (Num 5) of
                (r2, m2, h2) \<Rightarrow> r1 = Inr (Num 995) \<and> r2 = Inr (Num 995))))
   \<and> (case memoizer (Inr (\<lambda>now x. case x of Num n \<Rightarrow> Num (n - 5) | _ \<Rightarrow> Undefined)) of
      Inl e \<Rightarrow> False
    | Inr m0 \<Rightarrow>
        (case memoized_call m0 [] 1000 (Num 5) of
           (r1, m1, h1) \<Rightarrow>
             (case memoized_call m1 h1 1600 (Num 5) of
                (r2, m2, h2) \<Rightarrow>
                  r1 = Inr (Num 0) \<and> r2 = Inr Undefined
                \<and> fst (memoized_call m2 h2 1700 Undefined) = Inl MissingArguments
                \<and> fst (memoized_call m2 h2 1700 (Num 0)) = Inl MissingArguments)))"
  by code_simp

section \<open>A limit of zero\<close>

lemma add_limit_0:
  "limit (options c) = Some 0 \<Longrightarrow> cache_map c = [] \<Longrightarrow>
   snd (cache_add c h k v ao now) = (c, h)"
  by (simp add: cache_add_unchanged evict_def map_size_def)

lemma call_effect_limit_0:
  "limit (options c) = Some 0 \<Longrightarrow> cache_map c = [] \<Longrightarrow> call_effect (c, h) x = (c, h)"
  by (cases x) (simp_all add: add_limit_0 cache_pop_then_def cache_clear_def prune_empty)

lemma history_limit_0:
  "limit (options c) = Some 0 \<Longrightarrow> cache_map c = [] \<Longrightarrow>
   foldl call_effect (c, h) calls = (c, h)"
  by (induction calls) (simp_all add: call_effect_limit_0)

text \<open>
  Claim C10. On a cache constructed with \<^verbatim>\<open>limit: 0\<close>, after any history of calls
  and prune ticks the store is empty, and every \<^verbatim>\<open>add\<close> with a valid key and a valid
  value is rejected with a \<open>TypeError\<close> (of the eviction branch, or of the key's own
  \<^verbatim>\<open>toString()\<close> when that throws) and stores nothing.
\<close>

theorem limit_0_never_stores:
  assumes "limit opts = Some 0"
    and "foldl call_effect (new_Cache (Some opts), h0) calls = (c, h)"
    and "k \<noteq> Undefined" and "k \<noteq> Null" and "toString h' k \<noteq> Inr []"
    and "v \<noteq> Undefined" and "v \<noteq> Null"
  shows "cache_map c = [] \<and> cache_add c h' k v ao now = (Inl TypeError, c, h')"
proof -
  have start: "limit (options (new_Cache (Some opts))) = Some 0"
    "cache_map (new_Cache (Some opts)) = []"
    using assms(1) by (simp_all add: new_Cache_def)
  then have same: "c = new_Cache (Some opts)"
    using assms(2) by (simp add: history_limit_0)
  then have ev: "evict c = Inl TypeError"
    using start by (simp add: evict_def map_size_def)
  have "cache_add c h' k v ao now = (Inl TypeError, c, h')"
  proof (cases "toString h' k")
    case (Inl e)
    then have "e = TypeError"
      by (rule toString_Inl)
    then show ?thesis
      using Inl assms(3,4) by (simp add: cache_add_def Let_def)
  next
    case (Inr s)
    then have "s \<noteq> []"
      using assms(5) by simp
    then show ?thesis
      using Inr ev assms(3,4,6,7) same start(2)
      by (simp add: cache_add_def Let_def duplicate_check_def map_has_def)
  qed
  then show ?thesis
    using same start(2) by simp
qed

theorem limit_0_never_stores_witness:
  "(case foldl call_effect (new_Cache (Some (no_options\<lparr>limit := Some 0\<rparr>)), [])
          [Add (Str ''a'') (Num 1) no_add_options 0, Prune 5, Has (Str ''a''),
           Add (Str ''b'') (Num 2) no_add_options 10] of
      (c, h) \<Rightarrow>
        cache_map c = []
      \<and> cache_add c h (Str ''a'') (Num 1) no_add_options 20 = (Inl TypeError, c, h))"
proof -
  obtain c h where run:
    "foldl call_effect (new_Cache (Some (no_options\<lparr>limit := Some 0\<rparr>)), [])
       [Add (Str ''a'') (Num 1) no_add_options 0, Prune 5, Has (Str ''a''),
        Add (Str ''b'') (Num 2) no_add_options 10] = (c, h)"
    by (cases "foldl call_effect (new_Cache (Some (no_options\<lparr>limit := Some 0\<rparr>)), [])
       [Add (Str ''a'') (Num 1) no_add_options 0, Prune 5, Has (Str ''a''),
        Add (Str ''b'') (Num 2) no_add_options 10]")
  have "cache_map c = []
      \<and> cache_add c h (Str ''a'') (Num 1) no_add_options 20 = (Inl TypeError, c, h)"
    using limit_0_never_stores [OF _ run, of "Str ''a''" h "Num 1" no_add_options 20]
    by (simp add: no_options_def)
  then show ?thesis
    using run by simp
qed

end
